theory Spec2Isabelle
  imports Main "HOL-Library.Multiset" "HOL-Library.Sublist"
begin

section \<open>Data model of main.go\<close>

text \<open>
  The three structs of the program. Go strings are byte strings, here \<open>string\<close>;
  Go's \<open>int\<close> is modelled as \<open>int\<close>: the program only compares, increments below
  a bound and decrements a value that is at least 1, so no operation wraps.
\<close>

record Device =
  Serial :: string
  Model :: string

record Beatmap =
  Filename :: string
  DownloadUrl :: string

record BeatmapPage =
  Data :: "Beatmap list"
  Count :: int
  Total :: int
  Page :: int
  PageCount :: int

text \<open>
  How a call ends: it returns a value, the process exits (\<open>log.Fatalf\<close> prints and
  calls \<open>os.Exit(1)\<close>), or the goroutine panics (a nil dereference, an index out of
  range, \<open>make\<close> with a negative size).
\<close>

datatype 'a exec = Returned 'a | Exited | Panicked

section \<open>The reconciliation loops of main (lines 287 to 302)\<close>

text \<open>
  \<open>deviceFilesMap := make(map[string]bool)\<close>, then one store per listed file.
  Reading a Go map at an absent key gives the zero value, \<open>false\<close>.
\<close>

fun deviceFilesMap_loop :: "(string \<rightharpoonup> bool) \<Rightarrow> string list \<Rightarrow> (string \<rightharpoonup> bool)" where
  "deviceFilesMap_loop m [] = m"
| "deviceFilesMap_loop m (file # files) = deviceFilesMap_loop (m(file \<mapsto> True)) files"

definition deviceFilesMap :: "string list \<Rightarrow> (string \<rightharpoonup> bool)" where
  "deviceFilesMap files = deviceFilesMap_loop Map.empty files"

definition map_index :: "(string \<rightharpoonup> bool) \<Rightarrow> string \<Rightarrow> bool" where
  "map_index m k = (case m k of None \<Rightarrow> False | Some v \<Rightarrow> v)"

text \<open>
  The inner loop over \<open>page.Data\<close> and the outer loop over \<open>allPages\<close>; \<open>missing\<close> is
  the slice both append to.
\<close>

fun missing_page_loop :: "(string \<rightharpoonup> bool) \<Rightarrow> Beatmap list \<Rightarrow> Beatmap list \<Rightarrow> Beatmap list" where
  "missing_page_loop m missing [] = missing"
| "missing_page_loop m missing (beatmap # rest) =
     missing_page_loop m
       (if \<not> map_index m (Filename beatmap) then missing @ [beatmap] else missing) rest"

fun missing_loop :: "(string \<rightharpoonup> bool) \<Rightarrow> Beatmap list \<Rightarrow> BeatmapPage list \<Rightarrow> Beatmap list" where
  "missing_loop m missing [] = missing"
| "missing_loop m missing (page # pages) =
     missing_loop m (missing_page_loop m missing (Data page)) pages"

definition reconcile :: "string list \<Rightarrow> BeatmapPage list \<Rightarrow> Beatmap list" where
  "reconcile files allPages = missing_loop (deviceFilesMap files) [] allPages"

section \<open>fetchPage and fetchAllPagesConcurrently\<close>

text \<open>
  The answer of the catalog endpoint to \<open>client.Get\<close> for a page: the request fails,
  or a body arrives that \<open>json.Decode\<close> either rejects (\<open>None\<close>) or decodes to a
  page. The URL is the endpoint followed by the page number, so the network is a
  function \<open>client_Get\<close> of the page number. Both error branches end in
  \<open>log.Fatalf\<close>, which exits the process.
\<close>

datatype http_reply = RequestFailed | Body "BeatmapPage option"

definition fetchPage :: "(int \<Rightarrow> http_reply) \<Rightarrow> int \<Rightarrow> BeatmapPage exec" where
  "fetchPage client_Get page =
     (case client_Get page of
        RequestFailed \<Rightarrow> Exited
      | Body decoded \<Rightarrow> (case decoded of None \<Rightarrow> Exited | Some apiResponse \<Rightarrow> Returned apiResponse))"

text \<open>
  \<open>fetchAllPagesConcurrently\<close> starts one goroutine per page and waits for all of
  them. Its state while the goroutines run:
  \<^item> \<open>pageNum\<close>, the variable of the spawning loop;
  \<^item> \<open>running\<close>, the pages whose goroutine has been started and has not yet sent its
    result; its length is the counter of the wait group;
  \<^item> \<open>results\<close>, the buffer of the channel, oldest first.
  The scheduler chooses the next action: the main goroutine runs one iteration of its
  loop (\<open>Spawn\<close>), the goroutine of a page fetches and sends (\<open>Complete\<close>), or the
  main goroutine gets past \<open>wg.Wait()\<close>, closes the channel and drains it (\<open>Join\<close>).
  A goroutine touches shared state only when it sends, so its fetch and its send are one
  action. A send needs room in the buffer, whose capacity is \<open>totalPages\<close>.
  An action that is not enabled gives \<open>None\<close>.
\<close>

record orch =
  pageNum :: int
  running :: "int list"
  results :: "BeatmapPage list"

datatype orch_config = Run orch | Halt "BeatmapPage list exec"

datatype action = Spawn | Complete int | Join

text \<open>\<open>for page := range results\<close> on the closed channel: oldest first, until empty.\<close>

fun drain :: "BeatmapPage list \<Rightarrow> BeatmapPage list \<Rightarrow> BeatmapPage list" where
  "drain [] allPages = allPages"
| "drain (page # buffered) allPages = drain buffered (allPages @ [page])"

fun orch_step :: "(int \<Rightarrow> http_reply) \<Rightarrow> int \<Rightarrow> action \<Rightarrow> orch \<Rightarrow> orch_config option" where
  "orch_step client_Get totalPages Spawn s =
     (if pageNum s \<le> totalPages
      then Some (Run (s\<lparr>pageNum := pageNum s + 1, running := running s @ [pageNum s]\<rparr>))
      else None)"
| "orch_step client_Get totalPages (Complete page) s =
     (if page \<notin> set (running s) then None
      else case fetchPage client_Get page of
             Exited \<Rightarrow> Some (Halt Exited)
           | Panicked \<Rightarrow> Some (Halt Panicked)
           | Returned fetched \<Rightarrow>
               if length (results s) < nat totalPages
               then Some (Run (s\<lparr>running := remove1 page (running s),
                                 results := results s @ [fetched]\<rparr>))
               else None)"
| "orch_step client_Get totalPages Join s =
     (if totalPages < pageNum s \<and> running s = []
      then Some (Halt (Returned (drain (results s) [])))
      else None)"

fun orch_run :: "(int \<Rightarrow> http_reply) \<Rightarrow> int \<Rightarrow> action list \<Rightarrow> orch_config \<Rightarrow> orch_config option" where
  "orch_run client_Get totalPages [] c = Some c"
| "orch_run client_Get totalPages (a # sched) c =
     (case c of
        Halt r \<Rightarrow> None
      | Run s \<Rightarrow> (case orch_step client_Get totalPages a s of
                    None \<Rightarrow> None
                  | Some c' \<Rightarrow> orch_run client_Get totalPages sched c'))"

text \<open>
  The call under the schedule \<open>sched\<close>. \<open>make(chan BeatmapPage, totalPages)\<close> panics
  for a negative size; the memory limit on the size of a channel is not modelled. The
  result is \<open>None\<close> when \<open>sched\<close> is not an execution of the call from its start to
  its end.
\<close>

definition orch_init :: orch where
  "orch_init = \<lparr>pageNum = 1, running = [], results = []\<rparr>"

definition fetchAllPagesConcurrently ::
  "(int \<Rightarrow> http_reply) \<Rightarrow> int \<Rightarrow> action list \<Rightarrow> BeatmapPage list exec option" where
  "fetchAllPagesConcurrently client_Get totalPages sched =
     (if totalPages < 0 then Some Panicked
      else case orch_run client_Get totalPages sched (Run orch_init) of
             Some (Halt r) \<Rightarrow> Some r
           | Some (Run s) \<Rightarrow> None
           | None \<Rightarrow> None)"

text \<open>
  The catalog part of main (lines 277 to 302): the first page is fetched alone and its
  \<open>PageCount\<close> bounds the fan-out; the pages that come back are reconciled against the
  device files. \<open>first_Get\<close> is the network at the time of the first request,
  \<open>client_Get\<close> the network during the fan-out.
\<close>

definition main_missing ::
  "(int \<Rightarrow> http_reply) \<Rightarrow> (int \<Rightarrow> http_reply) \<Rightarrow> action list \<Rightarrow> string list
     \<Rightarrow> Beatmap list exec option" where
  "main_missing first_Get client_Get sched files =
     (case fetchPage first_Get 1 of
        Exited \<Rightarrow> Some Exited
      | Panicked \<Rightarrow> Some Panicked
      | Returned firstPage \<Rightarrow>
          (case fetchAllPagesConcurrently client_Get (PageCount firstPage) sched of
             None \<Rightarrow> None
           | Some Exited \<Rightarrow> Some Exited
           | Some Panicked \<Rightarrow> Some Panicked
           | Some (Returned allPages) \<Rightarrow> Some (Returned (reconcile files allPages))))"

section \<open>selectDevice\<close>

text \<open>
  \<open>selectDevice\<close> reads the user's choice with \<open>fmt.Scanf("%d", &choice)\<close>. The
  result of that call is the parameter \<open>scanned\<close>: \<open>None\<close> when \<open>Scanf\<close> returns an
  error (the input is no integer), \<open>Some choice\<close> otherwise. The function returns a
  pair of a string and an error, here a sum with the error on the left. The lines it
  prints are left out. Indexing a slice panics out of range, which \<open>slice_index\<close>
  writes out.
\<close>

datatype select_error = NoDevicesFound | InvalidChoice

definition slice_index :: "'a list \<Rightarrow> int \<Rightarrow> 'a exec" where
  "slice_index xs i = (if 0 \<le> i \<and> i < int (length xs) then Returned (xs ! nat i) else Panicked)"

definition selectDevice :: "Device list \<Rightarrow> int option \<Rightarrow> (select_error + string) exec" where
  "selectDevice devices scanned =
     (if length devices = 0 then Returned (Inl NoDevicesFound)
      else case scanned of
             None \<Rightarrow> Returned (Inl InvalidChoice)
           | Some choice \<Rightarrow>
               if choice < 1 \<or> choice > int (length devices) then Returned (Inl InvalidChoice)
               else (case slice_index devices (choice - 1) of
                       Returned d \<Rightarrow> Returned (Inr (Serial d))
                     | Exited \<Rightarrow> Exited
                     | Panicked \<Rightarrow> Panicked))"

section \<open>downloadAndPushBeatmap and the batch loop of main (lines 317 to 322)\<close>

text \<open>
  What the outside world answers during one call of \<open>downloadAndPushBeatmap\<close>:
  \<^item> \<open>http_Get url\<close>: \<open>None\<close> when \<open>http.Get\<close> returns an error, else the status code
    of the response;
  \<^item> \<open>os_TempDir\<close> and \<open>filepath_Join\<close>: the two library calls that build \<open>tmpPath\<close>;
  \<^item> \<open>os_Create path\<close>, \<open>io_Copy path\<close>, \<open>os_Remove path\<close>: whether the call
    returns a nil error;
  \<^item> \<open>adb_run argv\<close>: whether running the command returns a nil error.
\<close>

record sync_env =
  http_Get :: "string \<Rightarrow> int option"
  os_TempDir :: string
  filepath_Join :: "string \<Rightarrow> string \<Rightarrow> string"
  os_Create :: "string \<Rightarrow> bool"
  io_Copy :: "string \<Rightarrow> bool"
  adb_run :: "string list \<Rightarrow> bool"
  os_Remove :: "string \<Rightarrow> bool"

text \<open>The errors the function builds with \<open>fmt.Errorf\<close>, and the lines printed.\<close>

datatype sync_error =
    FailedToDownload string
  | DownloadFailedStatus string int
  | FailedToCreateFile
  | FailedToWriteFile
  | AdbPushFailed

datatype console_line =
    Pushed string string
  | CleanupWarning string
  | ErrorProcessing string sync_error

text \<open>
  \<open>exec.Command\<close> builds a command handle; \<open>var cmd *exec.Cmd\<close> is nil until it is
  assigned. \<open>CombinedOutput\<close> reads a field of its receiver first, so on a nil
  handle it panics with a nil pointer dereference.
\<close>

definition exec_Command :: "string list \<Rightarrow> string list option" where
  "exec_Command argv = Some argv"

definition CombinedOutput :: "sync_env \<Rightarrow> string list option \<Rightarrow> bool exec" where
  "CombinedOutput env cmd = (case cmd of None \<Rightarrow> Panicked | Some argv \<Rightarrow> Returned (adb_run env argv))"

definition fullURL_of :: "Beatmap \<Rightarrow> string" where
  "fullURL_of b = ''https://synthriderz.com'' @ DownloadUrl b"

definition tmpPath_of :: "sync_env \<Rightarrow> Beatmap \<Rightarrow> string" where
  "tmpPath_of env b = filepath_Join env (os_TempDir env) (Filename b)"

text \<open>
  The result is the lines printed and the returned error (\<open>None\<close> is Go's nil).
\<close>

definition downloadAndPushBeatmap ::
  "sync_env \<Rightarrow> Beatmap \<Rightarrow> string \<Rightarrow> string \<Rightarrow> (console_line list \<times> sync_error option) exec" where
  "downloadAndPushBeatmap env b serial remoteDir =
     (case http_Get env (fullURL_of b) of
        None \<Rightarrow> Returned ([], Some (FailedToDownload (Filename b)))
      | Some status \<Rightarrow>
          if status \<noteq> 200 then Returned ([], Some (DownloadFailedStatus (Filename b) status))
          else let tmpPath = tmpPath_of env b in
            if \<not> os_Create env tmpPath then Returned ([], Some FailedToCreateFile)
            else if \<not> io_Copy env tmpPath then Returned ([], Some FailedToWriteFile)
            else let cmd = (if serial \<noteq> '''' then
                              exec_Command [''adb'', ''-s'', serial, ''push'', tmpPath, remoteDir]
                            else None) in
              (case CombinedOutput env cmd of
                 Panicked \<Rightarrow> Panicked
               | Exited \<Rightarrow> Exited
               | Returned ok \<Rightarrow>
                   if \<not> ok then Returned ([], Some AdbPushFailed)
                   else if \<not> os_Remove env tmpPath
                     then Returned ([Pushed (Filename b) remoteDir, CleanupWarning tmpPath], None)
                     else Returned ([Pushed (Filename b) remoteDir], None)))"

text \<open>
  The loop \<open>for _, bm := range missing\<close>. The world may answer differently at each
  call, so the environment of the call for the entry at position \<open>i\<close> is \<open>envs i\<close>.
\<close>

fun sync_loop ::
  "(nat \<Rightarrow> sync_env) \<Rightarrow> nat \<Rightarrow> string \<Rightarrow> string \<Rightarrow> Beatmap list \<Rightarrow> console_line list exec" where
  "sync_loop envs i serial remoteDir [] = Returned []"
| "sync_loop envs i serial remoteDir (bm # rest) =
     (case downloadAndPushBeatmap (envs i) bm serial remoteDir of
        Panicked \<Rightarrow> Panicked
      | Exited \<Rightarrow> Exited
      | Returned (out, err) \<Rightarrow>
          (case sync_loop envs (Suc i) serial remoteDir rest of
             Panicked \<Rightarrow> Panicked
           | Exited \<Rightarrow> Exited
           | Returned out' \<Rightarrow>
               Returned (out @ (case err of None \<Rightarrow> [] | Some e \<Rightarrow> [ErrorProcessing (Filename bm) e])
                         @ out')))"

text \<open>
  The entry a printed line closes: the success line and the error line are printed once
  per processed entry, the cleanup warning is an extra line.
\<close>

fun closes_entry :: "console_line \<Rightarrow> string option" where
  "closes_entry (Pushed name dir) = Some name"
| "closes_entry (ErrorProcessing name e) = Some name"
| "closes_entry (CleanupWarning path) = None"

text \<open>The entries that the printed lines report as processed, in printing order.\<close>

fun processed_entries :: "console_line list \<Rightarrow> string list" where
  "processed_entries [] = []"
| "processed_entries (l # ls) =
     (case closes_entry l of None \<Rightarrow> processed_entries ls | Some name \<Rightarrow> name # processed_entries ls)"

section \<open>Invariants of the orchestrator\<close>

text \<open>
  Every page from 1 to \<open>n\<close> is accounted for exactly once: its result is in the
  channel, or its goroutine is running, or the loop has still to start it.
\<close>

definition accounted :: "(int \<Rightarrow> http_reply) \<Rightarrow> int \<Rightarrow> orch \<Rightarrow> bool" where
  "accounted client_Get n s \<longleftrightarrow>
     1 \<le> pageNum s \<and> pageNum s \<le> n + 1
     \<and> mset (map Returned (results s)) + mset (map (fetchPage client_Get) (running s))
         + mset (map (fetchPage client_Get) [pageNum s..n])
       = mset (map (fetchPage client_Get) [1..n])"

text \<open>The goroutine of page \<open>p\<close> has not sent yet: it runs, or is still to be started.\<close>

definition awaited :: "int \<Rightarrow> orch \<Rightarrow> bool" where
  "awaited p s \<longleftrightarrow> pageNum s \<le> p \<or> p \<in> set (running s)"

section \<open>Example inputs\<close>

text \<open>
  A world for three calls of downloadAndPushBeatmap: the download of \<open>/dl/gone\<close>
  answers 404, every other download answers 200; the push of the call at position 1
  fails; the temporary file of the call at position 2 cannot be deleted.
\<close>

definition example_envs :: "nat \<Rightarrow> sync_env" where
  "example_envs i =
     \<lparr>http_Get = (\<lambda>url. if url = ''https://synthriderz.com/dl/gone'' then Some 404 else Some 200),
      os_TempDir = ''/tmp'',
      filepath_Join = (\<lambda>dir name. dir @ ''/'' @ name),
      os_Create = (\<lambda>path. True),
      io_Copy = (\<lambda>path. True),
      adb_run = (\<lambda>argv. i \<noteq> 1),
      os_Remove = (\<lambda>path. i \<noteq> 2)\<rparr>"

definition example_missing :: "Beatmap list" where
  "example_missing =
     [\<lparr>Filename = ''gone.synth'', DownloadUrl = ''/dl/gone''\<rparr>,
      \<lparr>Filename = ''push.synth'', DownloadUrl = ''/dl/push''\<rparr>,
      \<lparr>Filename = ''keep.synth'', DownloadUrl = ''/dl/keep''\<rparr>]"

definition example_devices :: "Device list" where
  "example_devices =
     [\<lparr>Serial = ''1WMHH000X0'', Model = ''Quest_2''\<rparr>,
      \<lparr>Serial = ''emulator-5554'', Model = ''(unknown)''\<rparr>]"

text \<open>
  A catalog of three pages that answers every request, and one whose page 2 cannot be
  requested.
\<close>

definition example_page :: "int \<Rightarrow> BeatmapPage" where
  "example_page p =
     \<lparr>Data = [\<lparr>Filename = ''song.synth'', DownloadUrl = ''/dl/song''\<rparr>],
      Count = 1, Total = 3, Page = p, PageCount = 3\<rparr>"

definition example_client_Get :: "int \<Rightarrow> http_reply" where
  "example_client_Get p = Body (Some (example_page p))"

definition example_failing_Get :: "int \<Rightarrow> http_reply" where
  "example_failing_Get p = (if p = 2 then RequestFailed else example_client_Get p)"

section \<open>Facts about the reconciliation loops\<close>

lemma deviceFilesMap_loop_lookup:
  "map_index (deviceFilesMap_loop m files) k = (k \<in> set files \<or> map_index m k)"
  by (induction files arbitrary: m) (auto simp: map_index_def)

lemma deviceFilesMap_lookup: "map_index (deviceFilesMap files) k = (k \<in> set files)"
  by (simp add: deviceFilesMap_def deviceFilesMap_loop_lookup) (simp add: map_index_def)

lemma missing_page_loop_filter:
  "missing_page_loop m missing bs = missing @ filter (\<lambda>b. \<not> map_index m (Filename b)) bs"
  by (induction bs arbitrary: missing) auto

lemma missing_loop_filter:
  "missing_loop m missing pages =
     missing @ filter (\<lambda>b. \<not> map_index m (Filename b)) (concat (map Data pages))"
  by (induction pages arbitrary: missing) (auto simp: missing_page_loop_filter)

lemma reconcile_filter:
  "reconcile files pages = filter (\<lambda>b. Filename b \<notin> set files) (concat (map Data pages))"
  by (simp add: reconcile_def missing_loop_filter deviceFilesMap_lookup)

lemma reconcile_Nil: "reconcile files [] = []"
  by (simp add: reconcile_filter)

lemma reconcile_Cons:
  "reconcile files (page # pages) = reconcile files [page] @ reconcile files pages"
  by (simp add: reconcile_filter)

lemma reconcile_append:
  "reconcile files (pages @ pages') = reconcile files pages @ reconcile files pages'"
  by (simp add: reconcile_filter)

lemma reconcile_concat:
  "reconcile files pages = concat (map (\<lambda>page. reconcile files [page]) pages)"
proof (induction pages)
  case Nil
  show ?case by (simp add: reconcile_Nil)
next
  case (Cons page pages)
  have "reconcile files (page # pages) = reconcile files [page] @ reconcile files pages"
    by (rule reconcile_Cons)
  with Cons show ?case by simp
qed

section \<open>Claims about the reconciler\<close>

text \<open>
  C2. The missing list holds no entry whose Filename is among the device files, and it
  holds one element for each occurrence of a catalog entry whose Filename is not among
  them: it is the catalog, pages concatenated in aggregate order, with the entries
  present on the device struck out, so every entry occurs in it as often as in the
  catalog when it is absent from the device and not at all otherwise. For the device
  files a.synth and one page with the entries a.synth, b.synth, the missing list is
  the entry b.synth alone.
\<close>

theorem C2_reconcile_sound_complete:
  "(\<forall>b \<in> set (reconcile files pages). Filename b \<notin> set files)
   \<and> reconcile files pages = filter (\<lambda>b. Filename b \<notin> set files) (concat (map Data pages))
   \<and> (\<forall>b. count_list (reconcile files pages) b =
          (if Filename b \<in> set files then 0 else count_list (concat (map Data pages)) b))
   \<and> reconcile [''a.synth'']
        [\<lparr>Data = [\<lparr>Filename = ''a.synth'', DownloadUrl = ua\<rparr>,
                  \<lparr>Filename = ''b.synth'', DownloadUrl = ub\<rparr>],
          Count = c, Total = t, Page = p, PageCount = n\<rparr>]
       = [\<lparr>Filename = ''b.synth'', DownloadUrl = ub\<rparr>]"
proof -
  let ?absent = "\<lambda>b. Filename b \<notin> set files"
  let ?catalog = "concat (map Data pages)"
  have eq: "reconcile files pages = filter ?absent ?catalog"
    by (rule reconcile_filter)
  have sound: "\<forall>b \<in> set (reconcile files pages). Filename b \<notin> set files"
    by (simp add: eq)
  have cnt: "count_list (filter ?absent xs) b = (if Filename b \<in> set files then 0 else count_list xs b)"
    for xs :: "Beatmap list" and b
    by (induction xs) auto
  have inst: "reconcile [''a.synth'']
        [\<lparr>Data = [\<lparr>Filename = ''a.synth'', DownloadUrl = ua\<rparr>,
                  \<lparr>Filename = ''b.synth'', DownloadUrl = ub\<rparr>],
          Count = c, Total = t, Page = p, PageCount = n\<rparr>]
       = [\<lparr>Filename = ''b.synth'', DownloadUrl = ub\<rparr>]"
    by (simp add: reconcile_def deviceFilesMap_def map_index_def)
  have count: "\<forall>b. count_list (reconcile files pages) b =
          (if Filename b \<in> set files then 0 else count_list ?catalog b)"
    unfolding eq using cnt by blast
  from sound eq count inst show ?thesis
    by blast
qed

theorem C2_reconcile_sound_complete_witness:
  "\<lparr>Filename = ''b.synth'', DownloadUrl = ''/dl/b''\<rparr>
     \<in> set (reconcile [''a.synth'']
          [\<lparr>Data = [\<lparr>Filename = ''a.synth'', DownloadUrl = ''/dl/a''\<rparr>,
                    \<lparr>Filename = ''b.synth'', DownloadUrl = ''/dl/b''\<rparr>],
            Count = 2, Total = 2, Page = 1, PageCount = 1\<rparr>])
   \<and> Filename \<lparr>Filename = ''b.synth'', DownloadUrl = ''/dl/b''\<rparr> \<notin> set [''a.synth'']
   \<and> count_list (reconcile [''a.synth'']
          [\<lparr>Data = [\<lparr>Filename = ''a.synth'', DownloadUrl = ''/dl/a''\<rparr>,
                    \<lparr>Filename = ''b.synth'', DownloadUrl = ''/dl/b''\<rparr>],
            Count = 2, Total = 2, Page = 1, PageCount = 1\<rparr>])
        \<lparr>Filename = ''b.synth'', DownloadUrl = ''/dl/b''\<rparr> = 1"
  using C2_reconcile_sound_complete [of "[''a.synth'']"
      "[\<lparr>Data = [\<lparr>Filename = ''a.synth'', DownloadUrl = ''/dl/a''\<rparr>,
                 \<lparr>Filename = ''b.synth'', DownloadUrl = ''/dl/b''\<rparr>],
         Count = 2, Total = 2, Page = 1, PageCount = 1\<rparr>]" "''/dl/a''" "''/dl/b''" 2 2 1 1]
  by simp

text \<open>
  C3. The missing list is the concatenation, in aggregate order, of the missing lists of
  the single pages, and the missing list of a single page is that page's entry sequence
  with the entries present on the device removed, hence a subsequence of it: entries of
  one page keep their relative order. With no device files and one page of three
  entries the missing list is these three entries in the page's order.
\<close>

theorem C3_reconcile_keeps_page_order:
  "reconcile files pages = concat (map (\<lambda>page. reconcile files [page]) pages)
   \<and> reconcile files [page] = filter (\<lambda>b. Filename b \<notin> set files) (Data page)
   \<and> subseq (reconcile files [page]) (Data page)
   \<and> reconcile [] [\<lparr>Data = [b1, b2, b3], Count = c, Total = t, Page = p, PageCount = n\<rparr>]
       = [b1, b2, b3]"
proof -
  have one: "reconcile files [page] = filter (\<lambda>b. Filename b \<notin> set files) (Data page)"
    by (simp add: reconcile_filter)
  have sub: "subseq (reconcile files [page]) (Data page)"
    unfolding one by (rule subseq_filter_left)
  have three: "reconcile [] [\<lparr>Data = [b1, b2, b3], Count = c, Total = t, Page = p, PageCount = n\<rparr>]
       = [b1, b2, b3]"
    by (simp add: reconcile_filter)
  from reconcile_concat [of files pages] one sub three show ?thesis
    by blast
qed

text \<open>
  C4. No de-duplication by name: for a Filename that is not among the device files, the
  missing list has as many elements with that Filename as the catalog pages have entries
  with it, counted over all pages and within each page.
\<close>

theorem C4_reconcile_no_dedup:
  assumes "name \<notin> set files"
  shows "length (filter (\<lambda>b. Filename b = name) (reconcile files pages))
         = length (filter (\<lambda>b. Filename b = name) (concat (map Data pages)))"
proof -
  have "filter (\<lambda>b. Filename b = name) (filter (\<lambda>b. Filename b \<notin> set files) xs)
        = filter (\<lambda>b. Filename b = name) xs" for xs :: "Beatmap list"
    using assms by (induction xs) auto
  then show ?thesis
    by (simp only: reconcile_filter)
qed

theorem C4_reconcile_no_dedup_witness:
  "''b.synth'' \<notin> set [''a.synth'']
   \<and> length (filter (\<lambda>b. Filename b = ''b.synth'')
        (reconcile [''a.synth'']
          [\<lparr>Data = [\<lparr>Filename = ''b.synth'', DownloadUrl = ''/dl/1''\<rparr>,
                    \<lparr>Filename = ''a.synth'', DownloadUrl = ''/dl/2''\<rparr>,
                    \<lparr>Filename = ''b.synth'', DownloadUrl = ''/dl/1''\<rparr>],
            Count = 3, Total = 4, Page = 1, PageCount = 2\<rparr>,
           \<lparr>Data = [\<lparr>Filename = ''b.synth'', DownloadUrl = ''/dl/3''\<rparr>],
            Count = 1, Total = 4, Page = 2, PageCount = 2\<rparr>])) = 3"
  using C4_reconcile_no_dedup [of "''b.synth''" "[''a.synth'']"
      "[\<lparr>Data = [\<lparr>Filename = ''b.synth'', DownloadUrl = ''/dl/1''\<rparr>,
                 \<lparr>Filename = ''a.synth'', DownloadUrl = ''/dl/2''\<rparr>,
                 \<lparr>Filename = ''b.synth'', DownloadUrl = ''/dl/1''\<rparr>],
         Count = 3, Total = 4, Page = 1, PageCount = 2\<rparr>,
        \<lparr>Data = [\<lparr>Filename = ''b.synth'', DownloadUrl = ''/dl/3''\<rparr>],
         Count = 1, Total = 4, Page = 2, PageCount = 2\<rparr>]"]
  by simp

text \<open>
  C5. The missing list is a function of the page aggregate and of the set of device
  files alone: two runs on the same pages, in the same aggregate order, whose device
  listings hold the same file names (in whatever order, with whatever repetitions)
  compute the same missing list.
\<close>

theorem C5_reconcile_deterministic:
  assumes "set files = set files'"
  shows "reconcile files pages = reconcile files' pages"
  using assms by (simp add: reconcile_filter)

theorem C5_reconcile_deterministic_witness:
  "set [''a.synth'', ''c.synth''] = set [''c.synth'', ''a.synth'', ''c.synth'']
   \<and> reconcile [''a.synth'', ''c.synth'']
        [\<lparr>Data = [\<lparr>Filename = ''a.synth'', DownloadUrl = ''/dl/a''\<rparr>,
                  \<lparr>Filename = ''b.synth'', DownloadUrl = ''/dl/b''\<rparr>],
          Count = 2, Total = 2, Page = 1, PageCount = 1\<rparr>]
     = reconcile [''c.synth'', ''a.synth'', ''c.synth'']
        [\<lparr>Data = [\<lparr>Filename = ''a.synth'', DownloadUrl = ''/dl/a''\<rparr>,
                  \<lparr>Filename = ''b.synth'', DownloadUrl = ''/dl/b''\<rparr>],
          Count = 2, Total = 2, Page = 1, PageCount = 1\<rparr>]"
proof -
  have s: "set [''a.synth'', ''c.synth''] = set [''c.synth'', ''a.synth'', ''c.synth'']"
    by auto
  from s C5_reconcile_deterministic [OF s] show ?thesis
    by blast
qed

section \<open>Facts about the sync executor\<close>

lemma processed_entries_append:
  "processed_entries (xs @ ys) = processed_entries xs @ processed_entries ys"
  by (induction xs) (auto split: option.splits)

lemma downloadAndPushBeatmap_cases:
  assumes "serial \<noteq> ''''"
  shows "(\<exists>e. downloadAndPushBeatmap env b serial remoteDir = Returned ([], Some e))
         \<or> (\<exists>out. downloadAndPushBeatmap env b serial remoteDir = Returned (out, None)
                  \<and> processed_entries out = [Filename b])"
  using assms
  by (simp add: downloadAndPushBeatmap_def CombinedOutput_def exec_Command_def Let_def
      split: option.splits)

lemma sync_loop_processes_all:
  assumes "serial \<noteq> ''''"
  shows "\<exists>out. sync_loop envs i serial remoteDir missing = Returned out
               \<and> processed_entries out = map Filename missing"
proof (induction missing arbitrary: i)
  case Nil
  show ?case by simp
next
  case (Cons bm rest)
  from Cons [of "Suc i"] obtain out' where
    rest: "sync_loop envs (Suc i) serial remoteDir rest = Returned out'"
    and names: "processed_entries out' = map Filename rest"
    by blast
  from downloadAndPushBeatmap_cases [OF assms, of "envs i" bm remoteDir]
  show ?case
  proof
    assume "\<exists>e. downloadAndPushBeatmap (envs i) bm serial remoteDir = Returned ([], Some e)"
    then obtain e where "downloadAndPushBeatmap (envs i) bm serial remoteDir = Returned ([], Some e)"
      by blast
    with rest names show ?thesis by simp
  next
    assume "\<exists>out. downloadAndPushBeatmap (envs i) bm serial remoteDir = Returned (out, None)
                  \<and> processed_entries out = [Filename bm]"
    then obtain out where "downloadAndPushBeatmap (envs i) bm serial remoteDir = Returned (out, None)"
      and "processed_entries out = [Filename bm]"
      by blast
    with rest names show ?thesis by (simp add: processed_entries_append)
  qed
qed

section \<open>Claims about device selection and the sync executor\<close>

text \<open>
  C7. An entry whose download answers with a status other than 200 makes
  downloadAndPushBeatmap return an error, and so does an entry whose push to the device
  fails (the push is attempted once the download is saved and the serial is not empty).
  Whenever the call for an entry returns an error, the loop prints the error line for
  that entry and goes on with the entries after it. With a non-empty serial the loop
  ends normally having closed every entry of the missing list, in order, with a success
  line or an error line, whatever failed on the way.
\<close>

theorem C7_entry_failure_logged_batch_continues:
  "(\<forall>status. http_Get (envs i) (fullURL_of bm) = Some status \<and> status \<noteq> 200 \<longrightarrow>
      downloadAndPushBeatmap (envs i) bm serial remoteDir
        = Returned ([], Some (DownloadFailedStatus (Filename bm) status)))
   \<and> (http_Get (envs i) (fullURL_of bm) = Some 200
        \<and> os_Create (envs i) (tmpPath_of (envs i) bm) \<and> io_Copy (envs i) (tmpPath_of (envs i) bm)
        \<and> serial \<noteq> ''''
        \<and> \<not> adb_run (envs i) [''adb'', ''-s'', serial, ''push'', tmpPath_of (envs i) bm, remoteDir] \<longrightarrow>
      downloadAndPushBeatmap (envs i) bm serial remoteDir = Returned ([], Some AdbPushFailed))
   \<and> (\<forall>out e. downloadAndPushBeatmap (envs i) bm serial remoteDir = Returned (out, Some e) \<longrightarrow>
        sync_loop envs i serial remoteDir (bm # rest) =
          (case sync_loop envs (Suc i) serial remoteDir rest of
             Returned out' \<Rightarrow> Returned (out @ ErrorProcessing (Filename bm) e # out')
           | Exited \<Rightarrow> Exited
           | Panicked \<Rightarrow> Panicked))
   \<and> (serial \<noteq> '''' \<longrightarrow>
        (\<exists>out. sync_loop envs i serial remoteDir missing = Returned out
              \<and> processed_entries out = map Filename missing))"
proof -
  have status: "\<forall>status. http_Get (envs i) (fullURL_of bm) = Some status \<and> status \<noteq> 200 \<longrightarrow>
      downloadAndPushBeatmap (envs i) bm serial remoteDir
        = Returned ([], Some (DownloadFailedStatus (Filename bm) status))"
    by (simp add: downloadAndPushBeatmap_def)
  have push: "http_Get (envs i) (fullURL_of bm) = Some 200
        \<and> os_Create (envs i) (tmpPath_of (envs i) bm) \<and> io_Copy (envs i) (tmpPath_of (envs i) bm)
        \<and> serial \<noteq> ''''
        \<and> \<not> adb_run (envs i) [''adb'', ''-s'', serial, ''push'', tmpPath_of (envs i) bm, remoteDir] \<longrightarrow>
      downloadAndPushBeatmap (envs i) bm serial remoteDir = Returned ([], Some AdbPushFailed)"
    by (simp add: downloadAndPushBeatmap_def CombinedOutput_def exec_Command_def Let_def)
  have continue: "\<forall>out e. downloadAndPushBeatmap (envs i) bm serial remoteDir = Returned (out, Some e) \<longrightarrow>
        sync_loop envs i serial remoteDir (bm # rest) =
          (case sync_loop envs (Suc i) serial remoteDir rest of
             Returned out' \<Rightarrow> Returned (out @ ErrorProcessing (Filename bm) e # out')
           | Exited \<Rightarrow> Exited
           | Panicked \<Rightarrow> Panicked)"
    by (simp split: exec.splits)
  have all: "serial \<noteq> '''' \<longrightarrow>
        (\<exists>out. sync_loop envs i serial remoteDir missing = Returned out
              \<and> processed_entries out = map Filename missing)"
    using sync_loop_processes_all by blast
  from status push continue all show ?thesis
    by blast
qed

theorem C7_entry_failure_logged_batch_continues_witness:
  "http_Get (example_envs 0) (fullURL_of (example_missing ! 0)) = Some 404 \<and> (404 :: int) \<noteq> 200
   \<and> downloadAndPushBeatmap (example_envs 0) (example_missing ! 0) ''1WMHH000X0'' ''/sdcard/''
       = Returned ([], Some (DownloadFailedStatus ''gone.synth'' 404))
   \<and> ''1WMHH000X0'' \<noteq> ''''
   \<and> sync_loop example_envs 0 ''1WMHH000X0'' ''/sdcard/'' example_missing
       = Returned [ErrorProcessing ''gone.synth'' (DownloadFailedStatus ''gone.synth'' 404),
                   ErrorProcessing ''push.synth'' AdbPushFailed,
                   Pushed ''keep.synth'' ''/sdcard/'', CleanupWarning ''/tmp/keep.synth'']
   \<and> processed_entries
        [ErrorProcessing ''gone.synth'' (DownloadFailedStatus ''gone.synth'' 404),
         ErrorProcessing ''push.synth'' AdbPushFailed,
         Pushed ''keep.synth'' ''/sdcard/'', CleanupWarning ''/tmp/keep.synth'']
       = map Filename example_missing"
  using C7_entry_failure_logged_batch_continues
    [of example_envs 0 "example_missing ! 0" "''1WMHH000X0''" "''/sdcard/''"
        "tl example_missing" example_missing]
  by (simp add: example_envs_def example_missing_def downloadAndPushBeatmap_def fullURL_of_def
      tmpPath_of_def CombinedOutput_def exec_Command_def)

text \<open>
  C8. When the download, the saving of the temporary file and the push all succeed (the
  serial being non-empty, so that the push is attempted), downloadAndPushBeatmap returns
  a nil error whether or not the temporary file can be deleted; a failed deletion only
  adds a warning line after the success line.
\<close>

theorem C8_cleanup_failure_is_a_warning:
  assumes "http_Get env (fullURL_of b) = Some 200"
    and "os_Create env (tmpPath_of env b)"
    and "io_Copy env (tmpPath_of env b)"
    and "serial \<noteq> ''''"
    and "adb_run env [''adb'', ''-s'', serial, ''push'', tmpPath_of env b, remoteDir]"
  shows "downloadAndPushBeatmap env b serial remoteDir =
           Returned (if os_Remove env (tmpPath_of env b)
                     then [Pushed (Filename b) remoteDir]
                     else [Pushed (Filename b) remoteDir, CleanupWarning (tmpPath_of env b)],
                     None)"
  using assms
  by (simp add: downloadAndPushBeatmap_def CombinedOutput_def exec_Command_def Let_def)

theorem C8_cleanup_failure_is_a_warning_witness:
  "http_Get (example_envs 2) (fullURL_of (example_missing ! 2)) = Some 200
   \<and> os_Create (example_envs 2) (tmpPath_of (example_envs 2) (example_missing ! 2))
   \<and> io_Copy (example_envs 2) (tmpPath_of (example_envs 2) (example_missing ! 2))
   \<and> ''1WMHH000X0'' \<noteq> ''''
   \<and> adb_run (example_envs 2)
        [''adb'', ''-s'', ''1WMHH000X0'', ''push'',
         tmpPath_of (example_envs 2) (example_missing ! 2), ''/sdcard/'']
   \<and> \<not> os_Remove (example_envs 2) (tmpPath_of (example_envs 2) (example_missing ! 2))
   \<and> downloadAndPushBeatmap (example_envs 2) (example_missing ! 2) ''1WMHH000X0'' ''/sdcard/''
       = Returned ([Pushed ''keep.synth'' ''/sdcard/'', CleanupWarning ''/tmp/keep.synth''], None)"
proof -
  have get: "http_Get (example_envs 2) (fullURL_of (example_missing ! 2)) = Some 200"
    by (simp add: example_envs_def example_missing_def fullURL_of_def)
  have create: "os_Create (example_envs 2) (tmpPath_of (example_envs 2) (example_missing ! 2))"
    by (simp add: example_envs_def)
  have copy: "io_Copy (example_envs 2) (tmpPath_of (example_envs 2) (example_missing ! 2))"
    by (simp add: example_envs_def)
  have serial: "''1WMHH000X0'' \<noteq> ''''"
    by simp
  have push: "adb_run (example_envs 2)
        [''adb'', ''-s'', ''1WMHH000X0'', ''push'',
         tmpPath_of (example_envs 2) (example_missing ! 2), ''/sdcard/'']"
    by (simp add: example_envs_def)
  have remove: "\<not> os_Remove (example_envs 2) (tmpPath_of (example_envs 2) (example_missing ! 2))"
    by (simp add: example_envs_def)
  have path: "tmpPath_of (example_envs 2) (example_missing ! 2) = ''/tmp/keep.synth''"
    by (simp add: example_envs_def example_missing_def tmpPath_of_def)
  have name: "Filename (example_missing ! 2) = ''keep.synth''"
    by (simp add: example_missing_def)
  from C8_cleanup_failure_is_a_warning [OF get create copy serial push] remove
  have "downloadAndPushBeatmap (example_envs 2) (example_missing ! 2) ''1WMHH000X0'' ''/sdcard/''
       = Returned ([Pushed ''keep.synth'' ''/sdcard/'', CleanupWarning ''/tmp/keep.synth''], None)"
    by (simp add: path name)
  with get create copy serial push remove show ?thesis
    by blast
qed

text \<open>
  C9. downloadAndPushBeatmap panics exactly when the serial is empty and the download
  has succeeded, that is, the request answered 200 and the temporary file was created
  and written: the command handle is then still nil when its output is asked for. With
  an empty serial and a successful download the call therefore returns nothing, neither
  an error nor nil; with a non-empty serial it never panics.
\<close>

theorem C9_empty_serial_nil_command:
  "(downloadAndPushBeatmap env b serial remoteDir = Panicked
      \<longleftrightarrow> serial = '''' \<and> http_Get env (fullURL_of b) = Some 200
          \<and> os_Create env (tmpPath_of env b) \<and> io_Copy env (tmpPath_of env b))
   \<and> (serial = '''' \<and> http_Get env (fullURL_of b) = Some 200
        \<and> os_Create env (tmpPath_of env b) \<and> io_Copy env (tmpPath_of env b)
      \<longrightarrow> (\<forall>r. downloadAndPushBeatmap env b serial remoteDir \<noteq> Returned r))
   \<and> (serial \<noteq> '''' \<longrightarrow> downloadAndPushBeatmap env b serial remoteDir \<noteq> Panicked)"
  by (simp add: downloadAndPushBeatmap_def CombinedOutput_def exec_Command_def Let_def
      split: option.splits)

theorem C9_empty_serial_nil_command_witness:
  "http_Get (example_envs 2) (fullURL_of (example_missing ! 2)) = Some 200
   \<and> os_Create (example_envs 2) (tmpPath_of (example_envs 2) (example_missing ! 2))
   \<and> io_Copy (example_envs 2) (tmpPath_of (example_envs 2) (example_missing ! 2))
   \<and> downloadAndPushBeatmap (example_envs 2) (example_missing ! 2) '''' ''/sdcard/'' = Panicked
   \<and> ''1WMHH000X0'' \<noteq> ''''
   \<and> downloadAndPushBeatmap (example_envs 2) (example_missing ! 2) ''1WMHH000X0'' ''/sdcard/''
       \<noteq> Panicked"
  using C9_empty_serial_nil_command [of "example_envs 2" "example_missing ! 2" "''''" "''/sdcard/''"]
    C9_empty_serial_nil_command
      [of "example_envs 2" "example_missing ! 2" "''1WMHH000X0''" "''/sdcard/''"]
  by (simp add: example_envs_def example_missing_def fullURL_of_def)

text \<open>
  C10. selectDevice never panics. It returns an error exactly when the device list is
  empty, or Scanf reported an error, or the choice is below 1 or above the number of
  devices. For a choice c from 1 up to the number of devices the access to
  devices[c-1] is in bounds and the function returns the serial of that device.
\<close>

theorem C10_selectDevice:
  "selectDevice devices scanned \<noteq> Panicked
   \<and> ((\<exists>e. selectDevice devices scanned = Returned (Inl e))
        \<longleftrightarrow> devices = [] \<or> scanned = None
            \<or> (\<exists>c. scanned = Some c \<and> (c < 1 \<or> int (length devices) < c)))
   \<and> (\<forall>c. 1 \<le> c \<and> c \<le> int (length devices) \<longrightarrow>
         slice_index devices (c - 1) = Returned (devices ! nat (c - 1))
         \<and> nat (c - 1) < length devices
         \<and> selectDevice devices (Some c) = Returned (Inr (Serial (devices ! nat (c - 1)))))"
proof -
  have no_panic: "selectDevice devices scanned \<noteq> Panicked"
    by (auto simp: selectDevice_def slice_index_def split: option.splits)
  have err: "(\<exists>e. selectDevice devices scanned = Returned (Inl e))
        \<longleftrightarrow> devices = [] \<or> scanned = None
            \<or> (\<exists>c. scanned = Some c \<and> (c < 1 \<or> int (length devices) < c))"
    by (auto simp: selectDevice_def slice_index_def split: option.splits)
  have ok: "\<forall>c. 1 \<le> c \<and> c \<le> int (length devices) \<longrightarrow>
         slice_index devices (c - 1) = Returned (devices ! nat (c - 1))
         \<and> nat (c - 1) < length devices
         \<and> selectDevice devices (Some c) = Returned (Inr (Serial (devices ! nat (c - 1))))"
    by (auto simp: selectDevice_def slice_index_def)
  from no_panic err ok show ?thesis
    by blast
qed

theorem C10_selectDevice_witness:
  "(1 :: int) \<le> 2 \<and> 2 \<le> int (length example_devices)
   \<and> selectDevice example_devices (Some 2) = Returned (Inr ''emulator-5554'')
   \<and> selectDevice example_devices (Some 3) = Returned (Inl InvalidChoice)
   \<and> selectDevice example_devices None = Returned (Inl InvalidChoice)
   \<and> selectDevice [] (Some 1) = Returned (Inl NoDevicesFound)"
  using C10_selectDevice [of example_devices "Some 2"]
  by (simp add: example_devices_def selectDevice_def slice_index_def)

section \<open>Facts about the orchestrator\<close>

lemma drain_append: "drain buffered allPages = allPages @ buffered"
  by (induction buffered arbitrary: allPages) auto

lemma fetchPage_no_panic: "fetchPage client_Get page \<noteq> Panicked"
  by (simp add: fetchPage_def split: http_reply.splits option.splits)

lemma orch_run_Halt: "orch_run client_Get n sched (Halt r) = Some c \<longleftrightarrow> sched = [] \<and> c = Halt r"
  by (cases sched) auto

lemma orch_run_invariant:
  assumes step: "\<And>a s s'. I s \<Longrightarrow> orch_step client_Get n a s = Some (Run s') \<Longrightarrow> I s'"
    and halt: "\<And>a s r. I s \<Longrightarrow> orch_step client_Get n a s = Some (Halt r) \<Longrightarrow> F r"
    and init: "I s"
    and run: "orch_run client_Get n sched (Run s) = Some c"
  shows "case c of Run s' \<Rightarrow> I s' | Halt r \<Rightarrow> F r"
  using init run
proof (induction sched arbitrary: s)
  case Nil
  then show ?case by auto
next
  case (Cons a sched)
  from Cons.prems(2) obtain c' where c': "orch_step client_Get n a s = Some c'"
    and rest: "orch_run client_Get n sched c' = Some c"
    by (auto split: option.splits)
  show ?case
  proof (cases c')
    case (Run s')
    with c' Cons.prems(1) have "I s'" using step by blast
    with Cons.IH Run rest show ?thesis by blast
  next
    case (Halt r)
    with rest have "c = Halt r" by (simp add: orch_run_Halt)
    moreover from Halt c' Cons.prems(1) have "F r" using halt by blast
    ultimately show ?thesis by simp
  qed
qed

lemma accounted_init: "0 \<le> n \<Longrightarrow> accounted client_Get n orch_init"
  by (simp add: accounted_def orch_init_def)

lemma image_mset_remove1:
  assumes "x \<in> set xs"
  shows "image_mset f (mset xs) = add_mset (f x) (image_mset f (mset xs - {#x#}))"
proof -
  from assms have "mset xs = add_mset x (mset xs - {#x#})"
    by simp
  then have "image_mset f (mset xs) = image_mset f (add_mset x (mset xs - {#x#}))"
    by (rule arg_cong)
  then show ?thesis
    by (simp only: image_mset_add_mset)
qed

lemma accounted_step:
  assumes "accounted client_Get n s" and "orch_step client_Get n a s = Some (Run s')"
  shows "accounted client_Get n s'"
proof (cases a)
  case Spawn
  with assms(2) have le: "pageNum s \<le> n"
    and s': "s' = s\<lparr>pageNum := pageNum s + 1, running := running s @ [pageNum s]\<rparr>"
    by (auto split: if_splits)
  from le have "[pageNum s..n] = pageNum s # [pageNum s + 1..n]"
    by (simp add: upto_rec1)
  with assms(1) le show ?thesis
    by (simp add: accounted_def s')
next
  case (Complete page)
  with assms(2) obtain fetched where mem: "page \<in> set (running s)"
    and f: "fetchPage client_Get page = Returned fetched"
    and s': "s' = s\<lparr>running := remove1 page (running s), results := results s @ [fetched]\<rparr>"
    by (auto split: if_splits exec.splits)
  have "image_mset (fetchPage client_Get) (mset (running s))
      = add_mset (Returned fetched) (image_mset (fetchPage client_Get) (mset (running s) - {#page#}))"
    unfolding f [symmetric] using mem by (rule image_mset_remove1)
  with assms(1) show ?thesis
    by (simp add: accounted_def s')
next
  case Join
  with assms(2) show ?thesis by (simp split: if_splits)
qed

lemma accounted_halt:
  assumes "accounted client_Get n s" and "orch_step client_Get n a s = Some (Halt r)"
  shows "r = Exited \<or> (\<exists>pages. r = Returned pages
           \<and> mset (map Returned pages) = mset (map (fetchPage client_Get) [1..n]))"
proof (cases a)
  case Spawn
  with assms(2) show ?thesis by (simp split: if_splits)
next
  case (Complete page)
  with assms(2) show ?thesis
    by (auto simp: fetchPage_no_panic split: if_splits exec.splits)
next
  case Join
  with assms(2) have "n < pageNum s" "running s = []" "r = Returned (results s)"
    by (auto simp: drain_append split: if_splits)
  with assms(1) show ?thesis
    by (simp add: accounted_def)
qed

lemma accounted_sizes:
  assumes "accounted client_Get n s"
  shows "int (length (results s)) + int (length (running s)) = pageNum s - 1"
proof -
  from assms have "mset (map Returned (results s)) + mset (map (fetchPage client_Get) (running s))
         + mset (map (fetchPage client_Get) [pageNum s..n])
       = mset (map (fetchPage client_Get) [1..n])"
    by (simp add: accounted_def)
  then have "size (mset (map Returned (results s)) + mset (map (fetchPage client_Get) (running s))
         + mset (map (fetchPage client_Get) [pageNum s..n]))
       = size (mset (map (fetchPage client_Get) [1..n]))"
    by (rule arg_cong)
  moreover from assms have "1 \<le> pageNum s" "pageNum s \<le> n + 1"
    by (simp_all add: accounted_def)
  ultimately show ?thesis
    by simp
qed

lemma orch_progress:
  assumes "accounted client_Get n s"
  shows "\<exists>a c. orch_step client_Get n a s = Some c"
proof (cases "pageNum s \<le> n")
  case True
  then have "orch_step client_Get n Spawn s \<noteq> None" by simp
  then show ?thesis by blast
next
  case False
  show ?thesis
  proof (cases "running s")
    case Nil
    with False have "orch_step client_Get n Join s \<noteq> None" by simp
    then show ?thesis by blast
  next
    case (Cons page rest)
    from assms have "pageNum s \<le> n + 1" by (simp add: accounted_def)
    with False accounted_sizes [OF assms] Cons have "length (results s) < nat n"
      by simp
    with Cons have "orch_step client_Get n (Complete page) s \<noteq> None"
      by (simp split: exec.splits)
    then show ?thesis by blast
  qed
qed

lemma orch_step_decreases:
  assumes "accounted client_Get n s" and "orch_step client_Get n a s = Some (Run s')"
  shows "nat (2 * (n + 1 - pageNum s')) + length (running s')
         < nat (2 * (n + 1 - pageNum s)) + length (running s)"
proof (cases a)
  case Spawn
  with assms(2) show ?thesis by (auto split: if_splits)
next
  case (Complete page)
  with assms(2) obtain fetched where mem: "page \<in> set (running s)"
    and s': "s' = s\<lparr>running := remove1 page (running s), results := results s @ [fetched]\<rparr>"
    by (auto split: if_splits exec.splits)
  from mem have "0 < length (running s)"
    by (rule length_pos_if_in_set)
  with mem show ?thesis
    by (simp add: s' length_remove1)
next
  case Join
  with assms(2) show ?thesis by (simp split: if_splits)
qed

lemma orch_run_bounded:
  assumes "accounted client_Get n s" and "orch_run client_Get n sched (Run s) = Some c"
  shows "length sched \<le> nat (2 * (n + 1 - pageNum s)) + length (running s) + 1"
  using assms
proof (induction sched arbitrary: s)
  case Nil
  show ?case by simp
next
  case (Cons a sched)
  from Cons.prems(2) obtain c' where c': "orch_step client_Get n a s = Some c'"
    and rest: "orch_run client_Get n sched c' = Some c"
    by (auto split: option.splits)
  show ?case
  proof (cases c')
    case (Run s')
    from Run c' Cons.prems(1) have "accounted client_Get n s'"
      by (blast intro: accounted_step)
    with Cons.IH Run rest
    have "length sched \<le> nat (2 * (n + 1 - pageNum s')) + length (running s') + 1"
      by blast
    moreover from Run c' Cons.prems(1)
    have "nat (2 * (n + 1 - pageNum s')) + length (running s')
         < nat (2 * (n + 1 - pageNum s)) + length (running s)"
      by (blast intro: orch_step_decreases)
    ultimately show ?thesis by simp
  next
    case (Halt r)
    with rest have "sched = []" by (simp add: orch_run_Halt)
    then show ?thesis by simp
  qed
qed

lemma orch_run_spawns:
  assumes "pageNum s + int k \<le> n + 1"
  shows "orch_run client_Get n (replicate k Spawn @ rest) (Run s)
         = orch_run client_Get n rest
             (Run (s\<lparr>pageNum := pageNum s + int k,
                     running := running s @ [pageNum s..pageNum s + int k - 1]\<rparr>))"
  using assms
proof (induction k arbitrary: s)
  case 0
  show ?case by simp
next
  case (Suc k)
  let ?s1 = "s\<lparr>pageNum := pageNum s + 1, running := running s @ [pageNum s]\<rparr>"
  from Suc.prems have le: "pageNum s \<le> n" by simp
  from Suc.prems have "pageNum ?s1 + int k \<le> n + 1" by simp
  from Suc.IH [OF this]
  have "orch_run client_Get n (replicate k Spawn @ rest) (Run ?s1)
         = orch_run client_Get n rest
             (Run (?s1\<lparr>pageNum := pageNum ?s1 + int k,
                     running := running ?s1 @ [pageNum ?s1..pageNum ?s1 + int k - 1]\<rparr>))" .
  moreover have "[pageNum s..pageNum s + int (Suc k) - 1]
      = pageNum s # [pageNum s + 1..pageNum s + 1 + int k - 1]"
    by (simp add: upto_rec1)
  ultimately show ?case
    using le by (simp add: add.commute add.left_commute)
qed

lemma orch_run_completes:
  assumes "mset (running s) = mset order"
    and "length (results s) + length order \<le> nat n"
    and "\<forall>p \<in> set order. fetchPage client_Get p = Returned (pg p)"
  shows "orch_run client_Get n (map Complete order @ rest) (Run s)
         = orch_run client_Get n rest
             (Run (s\<lparr>running := [], results := results s @ map pg order\<rparr>))"
  using assms
proof (induction order arbitrary: s)
  case Nil
  then have "s\<lparr>running := [], results := results s @ map pg []\<rparr> = s"
    by (cases s) simp
  then show ?case by simp
next
  case (Cons q qs)
  let ?s1 = "s\<lparr>running := remove1 q (running s), results := results s @ [pg q]\<rparr>"
  from Cons.prems(1) have mem: "q \<in> set (running s)"
    by (metis list.set_intros(1) set_mset_mset)
  from Cons.prems(2) have room: "length (results s) < nat n" by simp
  from Cons.prems(3) have f: "fetchPage client_Get q = Returned (pg q)" by simp
  from mem room f have step: "orch_step client_Get n (Complete q) s = Some (Run ?s1)"
    by simp
  from Cons.prems(1) have "mset (running ?s1) = mset qs"
    by simp
  moreover from Cons.prems(2) have "length (results ?s1) + length qs \<le> nat n" by simp
  moreover from Cons.prems(3) have "\<forall>p \<in> set qs. fetchPage client_Get p = Returned (pg p)" by simp
  ultimately have "orch_run client_Get n (map Complete qs @ rest) (Run ?s1)
         = orch_run client_Get n rest
             (Run (?s1\<lparr>running := [], results := results ?s1 @ map pg qs\<rparr>))"
    by (rule Cons.IH)
  with step show ?case by simp
qed

lemma fetchAll_any_order:
  assumes "0 \<le> n" and "mset order = mset [1..n]"
    and "\<forall>p \<in> {1..n}. fetchPage client_Get p = Returned (pg p)"
  shows "fetchAllPagesConcurrently client_Get n (replicate (nat n) Spawn @ map Complete order @ [Join])
         = Some (Returned (map pg order))"
proof -
  let ?s1 = "orch_init\<lparr>pageNum := pageNum orch_init + int (nat n),
                       running := running orch_init @ [pageNum orch_init..pageNum orch_init + int (nat n) - 1]\<rparr>"
  from assms(1) have "pageNum orch_init + int (nat n) \<le> n + 1"
    by (simp add: orch_init_def)
  then have spawn: "orch_run client_Get n (replicate (nat n) Spawn @ map Complete order @ [Join]) (Run orch_init)
      = orch_run client_Get n (map Complete order @ [Join]) (Run ?s1)"
    by (rule orch_run_spawns)
  from assms(1) have s1: "pageNum ?s1 = n + 1" "running ?s1 = [1..n]" "results ?s1 = []"
    by (simp_all add: orch_init_def)
  from assms(2) have len: "length order = nat n"
    by (metis length_upto size_mset diff_add_cancel)
  from assms(2) have set: "set order = {1..n}"
    by (metis set_mset_mset set_upto)
  have "orch_run client_Get n (map Complete order @ [Join]) (Run ?s1)
      = orch_run client_Get n [Join] (Run (?s1\<lparr>running := [], results := results ?s1 @ map pg order\<rparr>))"
  proof (rule orch_run_completes)
    show "mset (running ?s1) = mset order" using assms(2) s1 by simp
    show "length (results ?s1) + length order \<le> nat n" using len s1 by simp
    show "\<forall>p \<in> set order. fetchPage client_Get p = Returned (pg p)" using assms(3) set by simp
  qed
  also have "\<dots> = Some (Halt (Returned (map pg order)))"
    using s1 by (simp add: drain_append)
  finally show ?thesis
    using spawn assms(1) by (simp add: fetchAllPagesConcurrently_def)
qed

lemma fetchAll_run:
  assumes "0 \<le> n" and "fetchAllPagesConcurrently client_Get n sched = Some r"
  shows "orch_run client_Get n sched (Run orch_init) = Some (Halt r)"
  using assms
  by (simp add: fetchAllPagesConcurrently_def split: option.splits orch_config.splits)

lemma fetchAll_accounted:
  assumes "0 \<le> n" and "fetchAllPagesConcurrently client_Get n sched = Some r"
  shows "r = Exited \<or> (\<exists>pages. r = Returned pages
           \<and> mset (map Returned pages) = mset (map (fetchPage client_Get) [1..n]))"
proof -
  from assms have run: "orch_run client_Get n sched (Run orch_init) = Some (Halt r)"
    by (rule fetchAll_run)
  have "case Halt r of
          Run s' \<Rightarrow> accounted client_Get n s'
        | Halt r \<Rightarrow> r = Exited \<or> (\<exists>pages. r = Returned pages
           \<and> mset (map Returned pages) = mset (map (fetchPage client_Get) [1..n]))"
    using accounted_step accounted_halt accounted_init [OF assms(1)] run
    by (rule orch_run_invariant)
  then show ?thesis by simp
qed

lemma fetchAll_returned:
  assumes "0 \<le> n" and "fetchAllPagesConcurrently client_Get n sched = Some (Returned pages)"
  shows "length pages = nat n
         \<and> mset (map Returned pages) = mset (map (fetchPage client_Get) [1..n])"
proof -
  from fetchAll_accounted [OF assms]
  have eq: "mset (map Returned pages) = mset (map (fetchPage client_Get) [1..n])"
    by simp
  then have "size (mset (map Returned pages)) = size (mset (map (fetchPage client_Get) [1..n]))"
    by (rule arg_cong)
  then have "length pages = nat n" by simp
  with eq show ?thesis by blast
qed

lemma fetchAll_all_fetched:
  assumes "0 \<le> n" and ok: "\<forall>p \<in> {1..n}. fetchPage client_Get p = Returned (pg p)"
    and "fetchAllPagesConcurrently client_Get n sched = Some r"
  shows "\<exists>pages. r = Returned pages \<and> mset pages = mset (map pg [1..n])"
proof -
  have target: "map (fetchPage client_Get) [1..n] = map Returned (map pg [1..n])"
    using ok by simp
  have "case Halt r of
          Run s' \<Rightarrow> accounted client_Get n s'
        | Halt r \<Rightarrow> \<exists>pages. r = Returned pages
           \<and> mset (map Returned pages) = mset (map (fetchPage client_Get) [1..n])"
  proof (rule orch_run_invariant [where I = "accounted client_Get n"])
    show "accounted client_Get n orch_init" by (rule accounted_init [OF assms(1)])
    show "orch_run client_Get n sched (Run orch_init) = Some (Halt r)"
      using assms(1,3) by (rule fetchAll_run)
    show "accounted client_Get n s'"
      if "accounted client_Get n s" "orch_step client_Get n a s = Some (Run s')" for a s s'
      using that by (rule accounted_step)
    show "\<exists>pages. r = Returned pages
           \<and> mset (map Returned pages) = mset (map (fetchPage client_Get) [1..n])"
      if acc: "accounted client_Get n s" and st: "orch_step client_Get n a s = Some (Halt r)" for a s r
    proof (cases a)
      case Spawn
      with st show ?thesis by (simp split: if_splits)
    next
      case (Complete page)
      with st have mem: "page \<in> set (running s)"
        by (auto split: if_splits)
      from acc have "fetchPage client_Get page \<in># mset (map (fetchPage client_Get) [1..n])"
        using mem unfolding accounted_def
        by (metis image_eqI list.set_map set_mset_mset union_iff)
      then obtain q where "q \<in> {1..n}" "fetchPage client_Get page = fetchPage client_Get q"
        by auto
      with ok have "fetchPage client_Get page = Returned (pg q)" by simp
      with Complete st mem show ?thesis by (simp split: if_splits)
    next
      case Join
      from accounted_halt [OF acc st] Join st show ?thesis
        by (auto split: if_splits)
    qed
  qed
  then obtain pages where r: "r = Returned pages"
    and "mset (map Returned pages) = mset (map (fetchPage client_Get) [1..n])"
    by (auto simp del: mset_map)
  then have "mset (map Returned pages) = mset (map Returned (map pg [1..n]))"
    by (simp only: target)
  then have "image_mset Returned (mset pages) = image_mset Returned (mset (map pg [1..n]))"
    by (simp only: mset_map)
  moreover have "inj (image_mset (Returned :: BeatmapPage \<Rightarrow> BeatmapPage exec))"
    by (rule multiset.inj_map) (simp add: inj_def)
  ultimately have "mset pages = mset (map pg [1..n])"
    by (rule injD [rotated])
  with r show ?thesis by blast
qed

lemma reachable_accounted:
  assumes "0 \<le> n" and "orch_run client_Get n sched (Run orch_init) = Some (Run s)"
  shows "accounted client_Get n s"
proof -
  have "case Run s of Run s' \<Rightarrow> accounted client_Get n s' | Halt r \<Rightarrow> True"
  proof (rule orch_run_invariant [where I = "accounted client_Get n"])
    show "accounted client_Get n orch_init" by (rule accounted_init [OF assms(1)])
    show "orch_run client_Get n sched (Run orch_init) = Some (Run s)" by (rule assms(2))
    show "accounted client_Get n s'"
      if "accounted client_Get n s" "orch_step client_Get n a s = Some (Run s')" for a s s'
      using that by (rule accounted_step)
    show True if "accounted client_Get n s" "orch_step client_Get n a s = Some (Halt r)" for a s r
      by simp
  qed
  then show ?thesis by simp
qed

lemma fetchPage_Exited:
  "fetchPage client_Get p = Exited \<longleftrightarrow> client_Get p = RequestFailed \<or> client_Get p = Body None"
  by (simp add: fetchPage_def split: http_reply.splits option.splits)

lemma awaited_step:
  assumes "awaited p s" and "fetchPage client_Get p = Exited"
    and "orch_step client_Get n a s = Some (Run s')"
  shows "awaited p s'"
proof (cases a)
  case Spawn
  with assms(3) have "s' = s\<lparr>pageNum := pageNum s + 1, running := running s @ [pageNum s]\<rparr>"
    by (auto split: if_splits)
  with assms(1) show ?thesis
    by (auto simp: awaited_def)
next
  case (Complete page)
  with assms(3) obtain fetched where f: "fetchPage client_Get page = Returned fetched"
    and s': "s' = s\<lparr>running := remove1 page (running s), results := results s @ [fetched]\<rparr>"
    by (auto split: if_splits exec.splits)
  from f assms(2) have "p \<noteq> page" by auto
  with assms(1) show ?thesis
    by (auto simp: awaited_def s')
next
  case Join
  with assms(3) show ?thesis by (simp split: if_splits)
qed

lemma awaited_halt:
  assumes "awaited p s" and "p \<le> n"
    and "orch_step client_Get n a s = Some (Halt r)"
  shows "r = Exited"
proof (cases a)
  case Spawn
  with assms(3) show ?thesis by (simp split: if_splits)
next
  case (Complete page)
  with assms(3) show ?thesis
    by (auto simp: fetchPage_no_panic split: if_splits exec.splits)
next
  case Join
  with assms show ?thesis
    by (auto simp: awaited_def split: if_splits)
qed

lemma fetchAll_failing_page:
  assumes "1 \<le> p" and "p \<le> n" and "fetchPage client_Get p = Exited"
    and "fetchAllPagesConcurrently client_Get n sched = Some r"
  shows "r = Exited"
proof -
  from assms(1,2) have n: "0 \<le> n" by simp
  have "case Halt r of Run s' \<Rightarrow> awaited p s' | Halt r \<Rightarrow> r = Exited"
  proof (rule orch_run_invariant [where I = "awaited p"])
    show "awaited p orch_init" using assms(1) by (simp add: awaited_def orch_init_def)
    show "orch_run client_Get n sched (Run orch_init) = Some (Halt r)"
      using n assms(4) by (rule fetchAll_run)
    show "awaited p s'" if "awaited p s" "orch_step client_Get n a s = Some (Run s')" for a s s'
      using that(1) assms(3) that(2) by (rule awaited_step)
    show "r = Exited" if "awaited p s" "orch_step client_Get n a s = Some (Halt r)" for a s r
      using that(1) assms(2) that(2) by (rule awaited_halt)
  qed
  then show ?thesis by simp
qed

lemma fetchAll_failing_page_run:
  assumes "1 \<le> p" and "p \<le> n" and "fetchPage client_Get p = Exited"
  shows "fetchAllPagesConcurrently client_Get n (replicate (nat n) Spawn @ [Complete p]) = Some Exited"
proof -
  define s1 where "s1 = orch_init\<lparr>pageNum := pageNum orch_init + int (nat n),
       running := running orch_init @ [pageNum orch_init..pageNum orch_init + int (nat n) - 1]\<rparr>"
  from assms(1,2) have n: "0 \<le> n" by simp
  then have "pageNum orch_init + int (nat n) \<le> n + 1"
    by (simp add: orch_init_def)
  then have spawned: "orch_run client_Get n (replicate (nat n) Spawn @ [Complete p]) (Run orch_init)
      = orch_run client_Get n [Complete p] (Run s1)"
    unfolding s1_def by (rule orch_run_spawns)
  from n have "running s1 = [1..n]"
    by (simp add: s1_def orch_init_def)
  with assms(1,2) have "p \<in> set (running s1)"
    by simp
  with assms(3) have "orch_step client_Get n (Complete p) s1 = Some (Halt Exited)"
    by simp
  with spawned have "orch_run client_Get n (replicate (nat n) Spawn @ [Complete p]) (Run orch_init)
      = Some (Halt Exited)"
    by simp
  with n show ?thesis
    by (simp add: fetchAllPagesConcurrently_def)
qed

section \<open>Claims about the catalog fetch\<close>

text \<open>
  C1. For a page count N of at least 1 and under every schedule, a call of
  fetchAllPagesConcurrently that returns hands back exactly N pages, and these are, as a
  multiset, the results of fetchPage for the pages 1 to N: one result per page index,
  in an order the schedule decides. When every fetch succeeds, every execution that
  runs to its end returns such a permutation, and every order of completion is the
  result of some schedule. No reachable state is stuck (a send always finds room in
  the channel), and an execution has at most 2N + 1 actions, so the call does come to
  its end.
\<close>

theorem C1_fetchAll_returns_each_page_once:
  assumes "1 \<le> N"
  shows "(\<forall>sched pages. fetchAllPagesConcurrently client_Get N sched = Some (Returned pages) \<longrightarrow>
            length pages = nat N
            \<and> mset (map Returned pages) = mset (map (fetchPage client_Get) [1..N]))
       \<and> ((\<forall>p \<in> {1..N}. fetchPage client_Get p = Returned (pg p)) \<longrightarrow>
            (\<forall>sched r. fetchAllPagesConcurrently client_Get N sched = Some r \<longrightarrow>
               (\<exists>pages. r = Returned pages \<and> length pages = nat N
                        \<and> mset pages = mset (map pg [1..N])))
            \<and> (\<forall>order. mset order = mset [1..N] \<longrightarrow>
                 (\<exists>sched. fetchAllPagesConcurrently client_Get N sched
                            = Some (Returned (map pg order)))))
       \<and> (\<forall>sched s. orch_run client_Get N sched (Run orch_init) = Some (Run s) \<longrightarrow>
            (\<exists>a c. orch_step client_Get N a s = Some c))
       \<and> (\<forall>sched c. orch_run client_Get N sched (Run orch_init) = Some c \<longrightarrow>
            length sched \<le> 2 * nat N + 1)"
proof -
  from assms have n: "0 \<le> N" by simp
  have returned: "\<forall>sched pages. fetchAllPagesConcurrently client_Get N sched = Some (Returned pages) \<longrightarrow>
            length pages = nat N
            \<and> mset (map Returned pages) = mset (map (fetchPage client_Get) [1..N])"
    using fetchAll_returned [OF n] by blast
  have total: "(\<forall>sched r. fetchAllPagesConcurrently client_Get N sched = Some r \<longrightarrow>
               (\<exists>pages. r = Returned pages \<and> length pages = nat N
                        \<and> mset pages = mset (map pg [1..N])))
            \<and> (\<forall>order. mset order = mset [1..N] \<longrightarrow>
                 (\<exists>sched. fetchAllPagesConcurrently client_Get N sched
                            = Some (Returned (map pg order))))"
    if ok: "\<forall>p \<in> {1..N}. fetchPage client_Get p = Returned (pg p)"
  proof (intro conjI allI impI)
    fix sched r
    assume run: "fetchAllPagesConcurrently client_Get N sched = Some r"
    from fetchAll_all_fetched [OF n ok run] obtain pages
      where r: "r = Returned pages" and perm: "mset pages = mset (map pg [1..N])"
      by blast
    from run r fetchAll_returned [OF n] have "length pages = nat N" by blast
    with r perm show "\<exists>pages. r = Returned pages \<and> length pages = nat N
                        \<and> mset pages = mset (map pg [1..N])"
      by blast
  next
    fix order :: "int list"
    assume "mset order = mset [1..N]"
    from fetchAll_any_order [OF n this ok]
    show "\<exists>sched. fetchAllPagesConcurrently client_Get N sched = Some (Returned (map pg order))"
      by blast
  qed
  have live: "\<forall>sched s. orch_run client_Get N sched (Run orch_init) = Some (Run s) \<longrightarrow>
            (\<exists>a c. orch_step client_Get N a s = Some c)"
    using reachable_accounted [OF n] orch_progress by blast
  have bound: "\<forall>sched c. orch_run client_Get N sched (Run orch_init) = Some c \<longrightarrow>
            length sched \<le> 2 * nat N + 1"
  proof (intro allI impI)
    fix sched c
    assume "orch_run client_Get N sched (Run orch_init) = Some c"
    with accounted_init [OF n]
    have "length sched \<le> nat (2 * (N + 1 - pageNum orch_init)) + length (running orch_init) + 1"
      by (rule orch_run_bounded)
    with n show "length sched \<le> 2 * nat N + 1"
      by (simp add: orch_init_def)
  qed
  from returned total live bound show ?thesis
    by blast
qed

theorem C1_fetchAll_returns_each_page_once_witness:
  "(1 :: int) \<le> 3
   \<and> fetchAllPagesConcurrently example_client_Get 3
        [Spawn, Spawn, Complete 2, Spawn, Complete 3, Complete 1, Join]
      = Some (Returned [example_page 2, example_page 3, example_page 1])
   \<and> length [example_page 2, example_page 3, example_page 1] = nat 3
   \<and> mset (map Returned [example_page 2, example_page 3, example_page 1])
      = mset (map (fetchPage example_client_Get) [1..3])"
proof -
  have n: "(1 :: int) \<le> 3" by simp
  have run: "fetchAllPagesConcurrently example_client_Get 3
        [Spawn, Spawn, Complete 2, Spawn, Complete 3, Complete 1, Join]
      = Some (Returned [example_page 2, example_page 3, example_page 1])"
    by (simp add: fetchAllPagesConcurrently_def orch_init_def fetchPage_def example_client_Get_def)
  from C1_fetchAll_returns_each_page_once [OF n, of example_client_Get] run
  have "length [example_page 2, example_page 3, example_page 1] = nat 3
   \<and> mset (map Returned [example_page 2, example_page 3, example_page 1])
      = mset (map (fetchPage example_client_Get) [1..3])"
    by blast
  with n run show ?thesis by blast
qed

text \<open>
  C6. fetchPage ends the process exactly when the request fails or the body does not
  decode. If that happens for a page p from 1 to N, no execution of
  fetchAllPagesConcurrently returns pages, complete or partial: every execution that
  runs to its end ends with the exit of the process, such an execution exists, the
  action that runs the goroutine of p is the one that exits, and nothing runs after the
  exit. In main, a failure of the first fetch or of any page of the fan-out ends with
  the exit of the process, so no missing list is computed.
\<close>

theorem C6_fetch_failure_is_fatal:
  "(fetchPage client_Get p = Exited
      \<longleftrightarrow> client_Get p = RequestFailed \<or> client_Get p = Body None)
   \<and> (1 \<le> p \<and> p \<le> N \<and> fetchPage client_Get p = Exited \<longrightarrow>
        (\<forall>sched r. fetchAllPagesConcurrently client_Get N sched = Some r \<longrightarrow> r = Exited)
        \<and> (\<exists>sched. fetchAllPagesConcurrently client_Get N sched = Some Exited)
        \<and> (\<forall>s. p \<in> set (running s) \<longrightarrow>
              orch_step client_Get N (Complete p) s = Some (Halt Exited)))
   \<and> (\<forall>a sched r. orch_run client_Get N (a # sched) (Halt r) = None)
   \<and> (fetchPage first_Get 1 = Exited \<longrightarrow>
        (\<forall>sched. main_missing first_Get client_Get sched files = Some Exited))
   \<and> (\<forall>firstPage. fetchPage first_Get 1 = Returned firstPage
          \<and> 1 \<le> p \<and> p \<le> PageCount firstPage \<and> fetchPage client_Get p = Exited \<longrightarrow>
        (\<forall>sched r. main_missing first_Get client_Get sched files = Some r \<longrightarrow> r = Exited)
        \<and> (\<exists>sched. main_missing first_Get client_Get sched files = Some Exited))"
proof -
  have fatal: "fetchPage client_Get p = Exited
      \<longleftrightarrow> client_Get p = RequestFailed \<or> client_Get p = Body None"
    by (rule fetchPage_Exited)
  have orch: "(\<forall>sched r. fetchAllPagesConcurrently client_Get n sched = Some r \<longrightarrow> r = Exited)
        \<and> (\<exists>sched. fetchAllPagesConcurrently client_Get n sched = Some Exited)
        \<and> (\<forall>s. p \<in> set (running s) \<longrightarrow>
              orch_step client_Get n (Complete p) s = Some (Halt Exited))"
    if "1 \<le> p" "p \<le> n" "fetchPage client_Get p = Exited" for n
    using fetchAll_failing_page [OF that] fetchAll_failing_page_run [OF that] that(3)
    by auto
  have stop: "\<forall>a sched r. orch_run client_Get N (a # sched) (Halt r) = None"
    by simp
  have first: "fetchPage first_Get 1 = Exited \<longrightarrow>
        (\<forall>sched. main_missing first_Get client_Get sched files = Some Exited)"
    by (simp add: main_missing_def)
  have later: "(\<forall>sched r. main_missing first_Get client_Get sched files = Some r \<longrightarrow> r = Exited)
        \<and> (\<exists>sched. main_missing first_Get client_Get sched files = Some Exited)"
    if fp: "fetchPage first_Get 1 = Returned firstPage"
      and p: "1 \<le> p" "p \<le> PageCount firstPage" "fetchPage client_Get p = Exited" for firstPage
  proof
    show "\<forall>sched r. main_missing first_Get client_Get sched files = Some r \<longrightarrow> r = Exited"
    proof (intro allI impI)
      fix sched r
      assume m: "main_missing first_Get client_Get sched files = Some r"
      then obtain r' where r': "fetchAllPagesConcurrently client_Get (PageCount firstPage) sched = Some r'"
        by (auto simp: main_missing_def fp split: option.splits)
      with p have "r' = Exited" by (blast intro: fetchAll_failing_page)
      with m r' fp show "r = Exited" by (simp add: main_missing_def)
    qed
    from fetchAll_failing_page_run [OF p] fp
    have "main_missing first_Get client_Get
            (replicate (nat (PageCount firstPage)) Spawn @ [Complete p]) files = Some Exited"
      by (simp add: main_missing_def)
    then show "\<exists>sched. main_missing first_Get client_Get sched files = Some Exited"
      by blast
  qed
  from fatal orch [of N] stop first later show ?thesis
    by blast
qed

theorem C6_fetch_failure_is_fatal_witness:
  "example_failing_Get 2 = RequestFailed
   \<and> fetchPage example_failing_Get 2 = Exited
   \<and> fetchPage example_client_Get 1 = Returned (example_page 1)
   \<and> (1 :: int) \<le> 2 \<and> 2 \<le> PageCount (example_page 1)
   \<and> fetchAllPagesConcurrently example_failing_Get 3
        [Spawn, Spawn, Complete 1, Spawn, Complete 2] = Some Exited
   \<and> main_missing example_client_Get example_failing_Get
        [Spawn, Spawn, Complete 1, Spawn, Complete 2] [''a.synth''] = Some Exited"
proof -
  have reply: "example_failing_Get 2 = RequestFailed"
    by (simp add: example_failing_Get_def)
  have exited: "fetchPage example_failing_Get 2 = Exited"
    by (simp add: fetchPage_def example_failing_Get_def)
  have first: "fetchPage example_client_Get 1 = Returned (example_page 1)"
    by (simp add: fetchPage_def example_client_Get_def)
  have range: "(1 :: int) \<le> 2 \<and> 2 \<le> PageCount (example_page 1)"
    by (simp add: example_page_def)
  have count: "PageCount (example_page 1) = 3"
    by (simp add: example_page_def)
  have run: "fetchAllPagesConcurrently example_failing_Get 3
        [Spawn, Spawn, Complete 1, Spawn, Complete 2] \<noteq> None"
    by (simp add: fetchAllPagesConcurrently_def orch_init_def fetchPage_def
        example_failing_Get_def example_client_Get_def)
  then have main: "main_missing example_client_Get example_failing_Get
        [Spawn, Spawn, Complete 1, Spawn, Complete 2] [''a.synth''] \<noteq> None"
    by (auto simp: main_missing_def first count split: exec.splits)
  from C6_fetch_failure_is_fatal [of example_failing_Get 2 3 example_client_Get "[''a.synth'']"]
    exited first range count run main
  have "fetchAllPagesConcurrently example_failing_Get 3
        [Spawn, Spawn, Complete 1, Spawn, Complete 2] = Some Exited
   \<and> main_missing example_client_Get example_failing_Get
        [Spawn, Spawn, Complete 1, Spawn, Complete 2] [''a.synth''] = Some Exited"
    by (metis option.exhaust)
  with reply exited first range show ?thesis
    by blast
qed

end
